theory Spec2Isabelle
  imports Main "HOL-Library.Product_Lexorder"
begin

section \<open>The Minesweeper knowledge base of minesweeper.py\<close>

text \<open>
  A cell is a pair of Python integers \<open>(i, j)\<close>. Python sets of cells are HOL sets;
  \<open>len\<close> is \<open>card\<close>. Where the source iterates over a set (an order Python does not
  specify) the model iterates over \<open>sorted_list_of_set\<close>; the lemmas
  \<open>mark_mines_any_order\<close>, \<open>mark_safes_any_order\<close> and \<open>eliminate_any_order\<close> show that
  the order makes no difference to those loops. Every loop of the source is a recursive
  function over the list it runs through.
\<close>

type_synonym cell = "int \<times> int"

subsection \<open>class Sentence\<close>

record Sentence =
  cells :: "cell set"
  count :: int

text \<open>\<open>Sentence.__eq__\<close>: structural equality on cells and count.\<close>

definition sentence_eq :: "Sentence \<Rightarrow> Sentence \<Rightarrow> bool" where
  "sentence_eq s other \<longleftrightarrow> cells s = cells other \<and> count s = count other"

definition known_mines :: "Sentence \<Rightarrow> cell set" where
  "known_mines s = (if int (card (cells s)) = count s then cells s else {})"

definition known_safes :: "Sentence \<Rightarrow> cell set" where
  "known_safes s = (if count s = 0 then cells s else {})"

text \<open>\<open>Sentence.mark_mine\<close> and \<open>Sentence.mark_safe\<close> mutate the object; the model
  returns the new value of the object.\<close>

definition sentence_mark_mine :: "Sentence \<Rightarrow> cell \<Rightarrow> Sentence" where
  "sentence_mark_mine s c =
     (if c \<in> cells s then s\<lparr>cells := cells s - {c}, count := count s - 1\<rparr> else s)"

definition sentence_mark_safe :: "Sentence \<Rightarrow> cell \<Rightarrow> Sentence" where
  "sentence_mark_safe s c =
     (if c \<in> cells s then s\<lparr>cells := cells s - {c}\<rparr> else s)"

subsection \<open>class MinesweeperAI\<close>

text \<open>
  \<open>self.knowledge\<close> is a list of Sentence objects, and \<open>add_knowledge\<close> keeps a
  second list, \<open>additional_knowledge\<close>, some of whose objects are also in
  \<open>self.knowledge\<close>. Objects therefore live in a store, addressed by natural numbers;
  both lists hold addresses. \<open>fresh\<close> is the next unused address.
\<close>

record MinesweeperAI =
  height :: int
  width :: int
  moves_made :: "cell set"
  mines :: "cell set"
  safes :: "cell set"
  store :: "nat \<Rightarrow> Sentence"
  fresh :: nat
  knowledge :: "nat list"

definition init_ai :: "int \<Rightarrow> int \<Rightarrow> MinesweeperAI" where
  "init_ai h w = \<lparr>height = h, width = w, moves_made = {}, mines = {}, safes = {},
                  store = (\<lambda>_. \<lparr>cells = {}, count = 0\<rparr>), fresh = 0, knowledge = []\<rparr>"

text \<open>The loop \<open>for sentence in self.knowledge: sentence.f(cell)\<close>: the method \<open>f\<close>
  is applied to every object of the list, in list order.\<close>

fun for_each_sentence ::
  "(Sentence \<Rightarrow> Sentence) \<Rightarrow> nat list \<Rightarrow> (nat \<Rightarrow> Sentence) \<Rightarrow> (nat \<Rightarrow> Sentence)" where
  "for_each_sentence f [] h = h"
| "for_each_sentence f (a # ks) h = for_each_sentence f ks (h(a := f (h a)))"

definition mark_mine :: "MinesweeperAI \<Rightarrow> cell \<Rightarrow> MinesweeperAI" where
  "mark_mine ai c =
     ai\<lparr>mines := insert c (mines ai),
        store := for_each_sentence (\<lambda>s. sentence_mark_mine s c) (knowledge ai) (store ai)\<rparr>"

definition mark_safe :: "MinesweeperAI \<Rightarrow> cell \<Rightarrow> MinesweeperAI" where
  "mark_safe ai c =
     ai\<lparr>safes := insert c (safes ai),
        store := for_each_sentence (\<lambda>s. sentence_mark_safe s c) (knowledge ai) (store ai)\<rparr>"

text \<open>The loops \<open>for m in bin: self.mark_mine(m)\<close> and \<open>for s in bin: self.mark_safe(s)\<close>
  over a copy \<open>bin\<close> of a set.\<close>

fun mark_mines :: "cell list \<Rightarrow> MinesweeperAI \<Rightarrow> MinesweeperAI" where
  "mark_mines [] ai = ai"
| "mark_mines (c # cs) ai = mark_mines cs (mark_mine ai c)"

fun mark_safes :: "cell list \<Rightarrow> MinesweeperAI \<Rightarrow> MinesweeperAI" where
  "mark_safes [] ai = ai"
| "mark_safes (c # cs) ai = mark_safes cs (mark_safe ai c)"

subsection \<open>add_knowledge, lines 197 to 227: the new sentence\<close>

text \<open>\<open>all_moves\<close>: the nested loops over \<open>range(height)\<close> and \<open>range(width)\<close>.\<close>

definition all_moves :: "int \<Rightarrow> int \<Rightarrow> cell set" where
  "all_moves h w = set (concat (map (\<lambda>k. map (\<lambda>l. (k, l)) [0..w - 1]) [0..h - 1]))"

text \<open>The literal set \<open>L\<close> of the eight surrounding coordinates.\<close>

definition around :: "cell \<Rightarrow> cell set" where
  "around c = (case c of (i, j) \<Rightarrow>
     {(i + 1, j), (i + 1, j + 1), (i + 1, j - 1), (i, j - 1), (i, j + 1),
      (i - 1, j - 1), (i - 1, j), (i - 1, j + 1)})"

definition neighbors :: "int \<Rightarrow> int \<Rightarrow> cell \<Rightarrow> cell set" where
  "neighbors h w c = {n \<in> around c. n \<in> all_moves h w}"

text \<open>The loop over \<open>neighbors\<close> that collects \<open>eliminated_cells\<close> and lowers the
  running count \<open>c\<close> once for each neighbour in \<open>self.mines\<close>.\<close>

definition eliminate_step :: "MinesweeperAI \<Rightarrow> cell \<Rightarrow> cell set \<times> int \<Rightarrow> cell set \<times> int" where
  "eliminate_step ai n acc =
     (let (e1, c1) = (if n \<in> mines ai then (insert n (fst acc), snd acc - 1) else acc);
          e2 = (if n \<in> safes ai then insert n e1 else e1);
          e3 = (if n \<in> moves_made ai then insert n e2 else e2)
      in (e3, c1))"

fun eliminate :: "MinesweeperAI \<Rightarrow> cell list \<Rightarrow> cell set \<times> int \<Rightarrow> cell set \<times> int" where
  "eliminate ai [] acc = acc"
| "eliminate ai (n # ns) acc = eliminate ai ns (eliminate_step ai n acc)"

definition new_sentence :: "MinesweeperAI \<Rightarrow> cell \<Rightarrow> int \<Rightarrow> Sentence" where
  "new_sentence ai c n =
     (let nb = neighbors (height ai) (width ai) c;
          (eliminated, c') = eliminate ai (sorted_list_of_set nb) ({}, n)
      in \<lparr>cells = nb - eliminated, count = c'\<rparr>)"

text \<open>\<open>self.knowledge.append(s)\<close> for a newly constructed object \<open>s\<close>.\<close>

definition append_new :: "Sentence \<Rightarrow> MinesweeperAI \<Rightarrow> MinesweeperAI" where
  "append_new s ai =
     ai\<lparr>store := (store ai)(fresh ai := s), fresh := Suc (fresh ai),
        knowledge := knowledge ai @ [fresh ai]\<rparr>"

subsection \<open>add_knowledge, lines 228 to 262: extracting known cells\<close>

text \<open>
  \<open>known_safes()\<close> and \<open>known_mines()\<close> return the object \<open>self.cells\<close> itself, not a
  copy, or else a new empty set. A value of type \<open>tiles\<close> is such a returned reference;
  reading it later (\<open>deref\<close>) sees the removals made in between.
\<close>

datatype tiles = Cells_of nat | New_set "cell set"

definition known_safes_ref :: "(nat \<Rightarrow> Sentence) \<Rightarrow> nat \<Rightarrow> tiles" where
  "known_safes_ref h a = (if count (h a) = 0 then Cells_of a else New_set {})"

definition known_mines_ref :: "(nat \<Rightarrow> Sentence) \<Rightarrow> nat \<Rightarrow> tiles" where
  "known_mines_ref h a = (if int (card (cells (h a))) = count (h a) then Cells_of a else New_set {})"

definition deref :: "(nat \<Rightarrow> Sentence) \<Rightarrow> tiles \<Rightarrow> cell set" where
  "deref h t = (case t of Cells_of a \<Rightarrow> cells (h a) | New_set S \<Rightarrow> S)"

text \<open>Lines 228 to 242, for the new sentence at address \<open>a\<close>: both references are taken
  first, then the mines are marked, then the safes.\<close>

definition extract_new :: "nat \<Rightarrow> MinesweeperAI \<Rightarrow> MinesweeperAI" where
  "extract_new a ai =
     (let new_safe_tiles = known_safes_ref (store ai) a;
          new_mine_tiles = known_mines_ref (store ai) a;
          ai1 = (if card (deref (store ai) new_mine_tiles) \<noteq> 0
                 then mark_mines (sorted_list_of_set (deref (store ai) new_mine_tiles)) ai
                 else ai)
      in if card (deref (store ai1) new_safe_tiles) \<noteq> 0
         then mark_safes (sorted_list_of_set (deref (store ai1) new_safe_tiles)) ai1
         else ai1)"

text \<open>The body of the loops at lines 246 to 262 and 295 to 309, for the sentence at
  address \<open>a\<close>: both references are taken first, then the safes are marked, then the
  mines.\<close>

definition extract_known :: "nat \<Rightarrow> MinesweeperAI \<Rightarrow> MinesweeperAI" where
  "extract_known a ai =
     (let s_tiles = known_safes_ref (store ai) a;
          m_tiles = known_mines_ref (store ai) a;
          ai1 = (if card (deref (store ai) s_tiles) \<noteq> 0
                 then mark_safes (sorted_list_of_set (deref (store ai) s_tiles)) ai
                 else ai)
      in if card (deref (store ai1) m_tiles) \<noteq> 0
         then mark_mines (sorted_list_of_set (deref (store ai1) m_tiles)) ai1
         else ai1)"

fun extract_all :: "nat list \<Rightarrow> MinesweeperAI \<Rightarrow> MinesweeperAI" where
  "extract_all [] ai = ai"
| "extract_all (a # adds) ai = extract_all adds (extract_known a ai)"

subsection \<open>add_knowledge: removing empty sentences while iterating\<close>

text \<open>
  \<open>list.remove(x)\<close> deletes the first element that is \<open>x\<close> or equal to \<open>x\<close> under
  \<open>__eq__\<close>. Python raises ValueError when there is none; the loops below only remove
  an element they have just read from the list, so that branch is never reached.
\<close>

fun list_remove :: "(nat \<Rightarrow> Sentence) \<Rightarrow> nat \<Rightarrow> nat list \<Rightarrow> nat list" where
  "list_remove h x [] = []"
| "list_remove h x (e # es) =
     (if e = x \<or> sentence_eq (h e) (h x) then es else e # list_remove h x es)"

lemma length_list_remove: "length (list_remove h x ks) \<le> length ks"
  by (induction ks) auto

text \<open>
  \<open>for sentence in lst: if len(sentence.cells) == 0: lst.remove(sentence)\<close>. Python's
  list iterator keeps an index \<open>i\<close>, reads \<open>lst[i]\<close> while \<open>i < len(lst)\<close> and then
  advances, whatever the body did to the list.
\<close>

function remove_empty :: "(nat \<Rightarrow> Sentence) \<Rightarrow> nat \<Rightarrow> nat list \<Rightarrow> nat list" where
  "remove_empty h i ks =
     (if i < length ks
      then (if card (cells (h (ks ! i))) = 0
            then remove_empty h (Suc i) (list_remove h (ks ! i) ks)
            else remove_empty h (Suc i) ks)
      else ks)"
  by pat_completeness auto
termination
proof (relation "measure (\<lambda>(h, i, ks). length ks - i)")
  show "wf (measure (\<lambda>(h, i, ks). length ks - i))" by simp
next
  fix h :: "nat \<Rightarrow> Sentence" and i :: nat and ks :: "nat list"
  assume "i < length ks"
  have "length (list_remove h (ks ! i) ks) \<le> length ks" by (rule length_list_remove)
  with \<open>i < length ks\<close>
  show "((h, Suc i, list_remove h (ks ! i) ks), (h, i, ks)) \<in> measure (\<lambda>(h, i, ks). length ks - i)"
    by simp
next
  fix h :: "nat \<Rightarrow> Sentence" and i :: nat and ks :: "nat list"
  assume "i < length ks"
  then show "((h, Suc i, ks), (h, i, ks)) \<in> measure (\<lambda>(h, i, ks). length ks - i)"
    by simp
qed

declare remove_empty.simps [simp del]

subsection \<open>add_knowledge, lines 268 to 284: subset resolution\<close>

text \<open>The body of the nested loops for \<open>sentence1\<close> at \<open>a1\<close> and \<open>sentence2\<close> at \<open>a2\<close>:
  a new object \<open>sentence3\<close> is constructed and appended to \<open>additional_knowledge\<close>,
  the second component of the loop state.\<close>

definition derive_step :: "nat \<times> nat \<Rightarrow> MinesweeperAI \<times> nat list \<Rightarrow> MinesweeperAI \<times> nat list" where
  "derive_step p acc =
     (let ai = fst acc; sentence1 = store ai (fst p); sentence2 = store ai (snd p)
      in if \<not> sentence_eq sentence2 sentence1 \<and> cells sentence2 \<subseteq> cells sentence1
         then (ai\<lparr>store := (store ai)(fresh ai :=
                      \<lparr>cells = cells sentence1 - cells sentence2,
                       count = count sentence1 - count sentence2\<rparr>),
                  fresh := Suc (fresh ai)\<rparr>,
               snd acc @ [fresh ai])
         else acc)"

fun derive_loop ::
  "(nat \<times> nat) list \<Rightarrow> MinesweeperAI \<times> nat list \<Rightarrow> MinesweeperAI \<times> nat list" where
  "derive_loop [] acc = acc"
| "derive_loop (p # ps) acc = derive_loop ps (derive_step p acc)"

text \<open>The nested loops visit the pairs \<open>(sentence1, sentence2)\<close> with \<open>sentence1\<close> in the
  outer loop.\<close>

definition derive :: "MinesweeperAI \<Rightarrow> MinesweeperAI \<times> nat list" where
  "derive ai =
     derive_loop
       (concat (map (\<lambda>a1. map (\<lambda>a2. (a1, a2)) (knowledge ai)) (knowledge ai))) (ai, [])"

text \<open>\<open>sentence in self.knowledge\<close>: some element is the object or equal to it.\<close>

definition list_contains :: "(nat \<Rightarrow> Sentence) \<Rightarrow> nat \<Rightarrow> nat list \<Rightarrow> bool" where
  "list_contains h x ks \<longleftrightarrow> (\<exists>e \<in> set ks. e = x \<or> sentence_eq (h e) (h x))"

fun add_new_sentences :: "nat list \<Rightarrow> MinesweeperAI \<Rightarrow> MinesweeperAI" where
  "add_new_sentences [] ai = ai"
| "add_new_sentences (x # additional) ai =
     add_new_sentences additional
       (if \<not> list_contains (store ai) x (knowledge ai)
        then ai\<lparr>knowledge := knowledge ai @ [x]\<rparr> else ai)"

subsection \<open>add_knowledge as a whole\<close>

text \<open>Lines 197 to 227: record the move, mark the cell safe, build the new sentence
  and append it. The new object gets the address \<open>fresh ai\<close>.\<close>

definition record_observation :: "MinesweeperAI \<Rightarrow> cell \<Rightarrow> int \<Rightarrow> MinesweeperAI" where
  "record_observation ai c n =
     (let ai1 = mark_safe (ai\<lparr>moves_made := insert c (moves_made ai)\<rparr>) c
      in append_new (new_sentence ai1 c n) ai1)"

text \<open>Lines 197 to 266: then extract the known cells and remove empty sentences.\<close>

definition ingest :: "MinesweeperAI \<Rightarrow> cell \<Rightarrow> int \<Rightarrow> MinesweeperAI" where
  "ingest ai c n =
     (let ai2 = record_observation ai c n;
          ai3 = extract_new (fresh ai) ai2;
          ai4 = extract_all (knowledge ai3) ai3
      in ai4\<lparr>knowledge := remove_empty (store ai4) 0 (knowledge ai4)\<rparr>)"

text \<open>Lines 268 to 309: subset resolution, the two removals of empty sentences, and the
  extraction over \<open>additional_knowledge\<close>.\<close>

definition resolve :: "MinesweeperAI \<Rightarrow> MinesweeperAI" where
  "resolve ai =
     (let (ai1, additional_knowledge) = derive ai;
          ai2 = add_new_sentences additional_knowledge ai1;
          ai3 = ai2\<lparr>knowledge := remove_empty (store ai2) 0 (knowledge ai2)\<rparr>;
          additional' = remove_empty (store ai3) 0 additional_knowledge
      in extract_all additional' ai3)"

definition add_knowledge :: "MinesweeperAI \<Rightarrow> cell \<Rightarrow> int \<Rightarrow> MinesweeperAI" where
  "add_knowledge ai c n = resolve (ingest ai c n)"

subsection \<open>The move selectors\<close>

text \<open>\<open>make_safe_move\<close> returns the first cell of \<open>self.safes\<close>, in the set's iteration
  order, that is not in \<open>self.moves_made\<close>. It assigns to no attribute. Python does not
  specify the order in which a set is iterated, and here the order decides the result:
  the argument \<open>order\<close> is that order, a list of the cells of \<open>self.safes\<close>.\<close>

definition make_safe_move :: "MinesweeperAI \<Rightarrow> cell list \<Rightarrow> cell option" where
  "make_safe_move ai order =
     (if card (safes ai) \<noteq> 0 then find (\<lambda>c. c \<notin> moves_made ai) order else None)"

text \<open>\<open>make_random_move\<close>: the loops run over \<open>range(self.height - 1)\<close> and
  \<open>range(self.width - 1)\<close>. The argument \<open>r\<close> stands for the random source:
  \<open>random.randint(0, len(L) - 1)\<close> is \<open>r\<close> reduced into that range.\<close>

definition possible_move :: "MinesweeperAI \<Rightarrow> cell set" where
  "possible_move ai =
     set (concat (map (\<lambda>i. map (\<lambda>j. (i, j)) [0..width ai - 1 - 1]) [0..height ai - 1 - 1]))
       - (moves_made ai \<union> mines ai)"

definition make_random_move :: "MinesweeperAI \<Rightarrow> nat \<Rightarrow> cell option" where
  "make_random_move ai r =
     (let L = sorted_list_of_set (possible_move ai)
      in if length L \<noteq> 0 then Some (L ! (r mod length L)) else None)"

text \<open>A call of the public interface, and running a sequence of calls.\<close>

datatype call = Add_knowledge cell int | Make_safe_move | Make_random_move nat

fun exec_call :: "MinesweeperAI \<Rightarrow> call \<Rightarrow> MinesweeperAI" where
  "exec_call ai (Add_knowledge c n) = add_knowledge ai c n"
| "exec_call ai Make_safe_move = ai"
| "exec_call ai (Make_random_move r) = ai"

fun run :: "call list \<Rightarrow> MinesweeperAI \<Rightarrow> MinesweeperAI" where
  "run [] ai = ai"
| "run (c # calls) ai = run calls (exec_call ai c)"

text \<open>The sentences of \<open>self.knowledge\<close>, in list order, and those of
  \<open>additional_knowledge\<close> as the nested loops of lines 270 to 279 leave it.\<close>

definition pool :: "MinesweeperAI \<Rightarrow> Sentence list" where
  "pool ai = map (store ai) (knowledge ai)"



subsection \<open>Ground truth\<close>

text \<open>
  A sentence is true of a set \<open>M\<close> of mines when exactly \<open>count\<close> of its cells are in
  \<open>M\<close>. A state is sound for \<open>M\<close> when its known mines are mines, its known safes and
  its moves are not, and every sentence object is true. An observation \<open>(c, n)\<close> is
  truthful when \<open>c\<close> is no mine and \<open>n\<close> is the number of mines around \<open>c\<close>.
\<close>

definition true_sentence :: "cell set \<Rightarrow> Sentence \<Rightarrow> bool" where
  "true_sentence M s \<longleftrightarrow> finite (cells s) \<and> int (card (cells s \<inter> M)) = count s"

definition sound :: "cell set \<Rightarrow> MinesweeperAI \<Rightarrow> bool" where
  "sound M ai \<longleftrightarrow> mines ai \<subseteq> M \<and> safes ai \<inter> M = {} \<and> moves_made ai \<inter> M = {} \<and>
     (\<forall>a. true_sentence M (store ai a))"

definition extends :: "MinesweeperAI \<Rightarrow> MinesweeperAI \<Rightarrow> bool" where
  "extends ai ai' \<longleftrightarrow> mines ai \<subseteq> mines ai' \<and> safes ai \<subseteq> safes ai' \<and>
     moves_made ai \<subseteq> moves_made ai' \<and> height ai' = height ai \<and> width ai' = width ai"




definition truthful :: "cell set \<Rightarrow> int \<Rightarrow> int \<Rightarrow> cell \<Rightarrow> int \<Rightarrow> bool" where
  "truthful M h w c n \<longleftrightarrow> c \<notin> M \<and> n = int (card (neighbors h w c \<inter> M))"

text \<open>The words of the specification for the neighbourhood of a cell: the cells of the
  board within Chebyshev distance 1.\<close>

definition chebyshev :: "cell \<Rightarrow> cell \<Rightarrow> int" where
  "chebyshev a b = max \<bar>fst a - fst b\<bar> \<bar>snd a - snd b\<bar>"

definition in_bounds :: "MinesweeperAI \<Rightarrow> cell \<Rightarrow> bool" where
  "in_bounds ai d \<longleftrightarrow> 0 \<le> fst d \<and> fst d < height ai \<and> 0 \<le> snd d \<and> snd d < width ai"

section \<open>Properties\<close>

subsection \<open>Sentence\<close>

lemma sentence_mark_mine_idem:
  "sentence_mark_mine (sentence_mark_mine s c) c = sentence_mark_mine s c"
  by (simp add: sentence_mark_mine_def)

lemma sentence_mark_safe_idem:
  "sentence_mark_safe (sentence_mark_safe s c) c = sentence_mark_safe s c"
  by (simp add: sentence_mark_safe_def)

text \<open>
  Claim C6. \<open>known_mines()\<close> returns the cell set when its size equals the count and the
  empty set otherwise; \<open>known_safes()\<close> returns the cell set when the count is 0 and the
  empty set otherwise. Both are functions of the sentence alone and return no new
  sentence: the source assigns to nothing. For two different cells \<open>A\<close> and \<open>B\<close>, the
  sentence \<open>{A, B} = 0\<close> has \<open>{A, B}\<close> as known safes and \<open>{A, B} = 2\<close> has
  \<open>{A, B}\<close> as known mines.
\<close>

theorem known_cells:
  "known_mines s = (if int (card (cells s)) = count s then cells s else {}) \<and>
   known_safes s = (if count s = 0 then cells s else {}) \<and>
   (A \<noteq> B \<longrightarrow> known_safes \<lparr>cells = {A, B}, count = 0\<rparr> = {A, B} \<and>
               known_mines \<lparr>cells = {A, B}, count = 2\<rparr> = {A, B})"
  by (simp add: known_mines_def known_safes_def)

theorem known_cells_witness:
  "((0, 0) :: cell) \<noteq> (0, 1) \<and>
   known_safes \<lparr>cells = {(0, 0), (0, 1)}, count = 0\<rparr> = {(0, 0), (0, 1)} \<and>
   known_mines \<lparr>cells = {(0, 0), (0, 1)}, count = 2\<rparr> = {(0, 0), (0, 1)}"
  using known_cells [of "\<lparr>cells = {(0, 0), (0, 1)}, count = 2\<rparr>" "(0, 0)" "(0, 1)"]
  by simp

text \<open>The references that \<open>add_knowledge\<close> works with read as the values of C6.\<close>

lemma deref_known_safes_ref: "deref h (known_safes_ref h a) = known_safes (h a)"
  by (simp add: deref_def known_safes_ref_def known_safes_def)

lemma deref_known_mines_ref: "deref h (known_mines_ref h a) = known_mines (h a)"
  by (simp add: deref_def known_mines_ref_def known_mines_def)

text \<open>
  Claim C7. \<open>Sentence.mark_mine(cell)\<close> removes the cell and lowers the count by 1 when
  the cell is in the sentence, and changes nothing otherwise; \<open>Sentence.mark_safe(cell)\<close>
  removes the cell and keeps the count when the cell is in the sentence, and changes
  nothing otherwise.
\<close>

theorem sentence_mark_cell:
  "(c \<in> cells s \<longrightarrow> sentence_mark_mine s c = \<lparr>cells = cells s - {c}, count = count s - 1\<rparr>) \<and>
   (c \<notin> cells s \<longrightarrow> sentence_mark_mine s c = s) \<and>
   (c \<in> cells s \<longrightarrow> sentence_mark_safe s c = \<lparr>cells = cells s - {c}, count = count s\<rparr>) \<and>
   (c \<notin> cells s \<longrightarrow> sentence_mark_safe s c = s)"
  by (simp add: sentence_mark_mine_def sentence_mark_safe_def)

theorem sentence_mark_cell_witness:
  "(0, 0) \<in> cells \<lparr>cells = {(0, 0), (0, 1)}, count = 1\<rparr> \<and>
   sentence_mark_mine \<lparr>cells = {(0, 0), (0, 1)}, count = 1\<rparr> (0, 0) = \<lparr>cells = {(0, 1)}, count = 0\<rparr> \<and>
   sentence_mark_safe \<lparr>cells = {(0, 0), (0, 1)}, count = 1\<rparr> (0, 0) = \<lparr>cells = {(0, 1)}, count = 1\<rparr> \<and>
   (5, 5) \<notin> cells \<lparr>cells = {(0, 0), (0, 1)}, count = 1\<rparr> \<and>
   sentence_mark_mine \<lparr>cells = {(0, 0), (0, 1)}, count = 1\<rparr> (5, 5) = \<lparr>cells = {(0, 0), (0, 1)}, count = 1\<rparr> \<and>
   sentence_mark_safe \<lparr>cells = {(0, 0), (0, 1)}, count = 1\<rparr> (5, 5) = \<lparr>cells = {(0, 0), (0, 1)}, count = 1\<rparr>"
  using sentence_mark_cell [of "(0, 0)" "\<lparr>cells = {(0, 0), (0, 1)}, count = 1\<rparr>"]
        sentence_mark_cell [of "(5, 5)" "\<lparr>cells = {(0, 0), (0, 1)}, count = 1\<rparr>"]
  by (simp add: insert_Diff_if)

subsection \<open>Marking a cell in the knowledge base\<close>

lemma for_each_sentence_eq:
  assumes idem: "\<And>x. f (f x) = f x"
  shows "for_each_sentence f ks h = (\<lambda>a. if a \<in> set ks then f (h a) else h a)"
proof (induction ks arbitrary: h)
  case Nil
  show ?case by simp
next
  case (Cons k ks)
  have "for_each_sentence f (k # ks) h
        = (\<lambda>a. if a \<in> set ks then f ((h(k := f (h k))) a) else (h(k := f (h k))) a)"
    by (simp only: for_each_sentence.simps Cons.IH)
  also have "\<dots> = (\<lambda>a. if a \<in> set (k # ks) then f (h a) else h a)"
    by (rule ext) (simp add: idem)
  finally show ?case .
qed

lemma store_mark_mine:
  "store (mark_mine ai c) =
     (\<lambda>a. if a \<in> set (knowledge ai) then sentence_mark_mine (store ai a) c else store ai a)"
  by (simp add: mark_mine_def for_each_sentence_eq [of "\<lambda>s. sentence_mark_mine s c"]
        sentence_mark_mine_idem)

lemma store_mark_safe:
  "store (mark_safe ai c) =
     (\<lambda>a. if a \<in> set (knowledge ai) then sentence_mark_safe (store ai a) c else store ai a)"
  by (simp add: mark_safe_def for_each_sentence_eq [of "\<lambda>s. sentence_mark_safe s c"]
        sentence_mark_safe_idem)

lemma mark_mine_fields [simp]:
  "mines (mark_mine ai c) = insert c (mines ai)" "safes (mark_mine ai c) = safes ai"
  "moves_made (mark_mine ai c) = moves_made ai" "knowledge (mark_mine ai c) = knowledge ai"
  "fresh (mark_mine ai c) = fresh ai" "height (mark_mine ai c) = height ai"
  "width (mark_mine ai c) = width ai"
  by (simp_all add: mark_mine_def)

lemma mark_safe_fields [simp]:
  "mines (mark_safe ai c) = mines ai" "safes (mark_safe ai c) = insert c (safes ai)"
  "moves_made (mark_safe ai c) = moves_made ai" "knowledge (mark_safe ai c) = knowledge ai"
  "fresh (mark_safe ai c) = fresh ai" "height (mark_safe ai c) = height ai"
  "width (mark_safe ai c) = width ai"
  by (simp_all add: mark_safe_def)

text \<open>
  Claim C10. \<open>MinesweeperAI.mark_mine\<close> and \<open>MinesweeperAI.mark_safe\<close> are idempotent:
  for every state and every cell, marking the cell a second time leaves the whole state
  (the three sets, the list of sentences and every sentence object) as the first marking
  left it.
\<close>

theorem mark_idempotent:
  "mark_mine (mark_mine ai c) c = mark_mine ai c \<and> mark_safe (mark_safe ai c) c = mark_safe ai c"
proof
  have "store (mark_mine (mark_mine ai c) c) = store (mark_mine ai c)"
    by (rule ext) (simp add: store_mark_mine sentence_mark_mine_idem)
  then show "mark_mine (mark_mine ai c) c = mark_mine ai c"
    by (simp add: MinesweeperAI.equality)
  have "store (mark_safe (mark_safe ai c) c) = store (mark_safe ai c)"
    by (rule ext) (simp add: store_mark_safe sentence_mark_safe_idem)
  then show "mark_safe (mark_safe ai c) c = mark_safe ai c"
    by (simp add: MinesweeperAI.equality)
qed

subsection \<open>Marking preserves soundness\<close>

lemma grid_set:
  "set (concat (map (\<lambda>k. map (\<lambda>l. (k, l)) [0..w - 1]) [0..h - 1])) =
     {(i, j). 0 \<le> i \<and> i < h \<and> 0 \<le> j \<and> j < (w::int)}"
  by (auto simp: image_iff)

lemma mark_mines_fields [simp]:
  "mines (mark_mines cs ai) = mines ai \<union> set cs" "safes (mark_mines cs ai) = safes ai"
  "moves_made (mark_mines cs ai) = moves_made ai" "knowledge (mark_mines cs ai) = knowledge ai"
  "fresh (mark_mines cs ai) = fresh ai" "height (mark_mines cs ai) = height ai"
  "width (mark_mines cs ai) = width ai"
  by (induction cs arbitrary: ai; simp)+

lemma mark_safes_fields [simp]:
  "mines (mark_safes cs ai) = mines ai" "safes (mark_safes cs ai) = safes ai \<union> set cs"
  "moves_made (mark_safes cs ai) = moves_made ai" "knowledge (mark_safes cs ai) = knowledge ai"
  "fresh (mark_safes cs ai) = fresh ai" "height (mark_safes cs ai) = height ai"
  "width (mark_safes cs ai) = width ai"
  by (induction cs arbitrary: ai; simp)+

lemma true_sentence_mark_mine:
  assumes "true_sentence M s" "c \<in> M"
  shows "true_sentence M (sentence_mark_mine s c)"
proof (cases "c \<in> cells s")
  case True
  have fin: "finite (cells s)" using assms(1) by (simp add: true_sentence_def)
  have "cells s \<inter> M = insert c ((cells s - {c}) \<inter> M)" using True assms(2) by auto
  then have "card (cells s \<inter> M) = Suc (card ((cells s - {c}) \<inter> M))"
    using fin by (metis Diff_iff IntD1 card_insert_disjoint finite_Diff finite_Int singletonI)
  then show ?thesis using assms(1) True fin by (simp add: true_sentence_def sentence_mark_mine_def)
next
  case False
  then show ?thesis using assms(1) by (simp add: sentence_mark_mine_def)
qed

lemma true_sentence_mark_safe:
  assumes "true_sentence M s" "c \<notin> M"
  shows "true_sentence M (sentence_mark_safe s c)"
proof -
  have "(cells s - {c}) \<inter> M = cells s \<inter> M" using assms(2) by auto
  then show ?thesis using assms(1) by (simp add: true_sentence_def sentence_mark_safe_def)
qed

lemma sound_mark_mine: "sound M ai \<Longrightarrow> c \<in> M \<Longrightarrow> sound M (mark_mine ai c)"
  by (simp add: sound_def store_mark_mine true_sentence_mark_mine)

lemma sound_mark_safe: "sound M ai \<Longrightarrow> c \<notin> M \<Longrightarrow> sound M (mark_safe ai c)"
  by (simp add: sound_def store_mark_safe true_sentence_mark_safe)

lemma sound_mark_mines: "sound M ai \<Longrightarrow> set cs \<subseteq> M \<Longrightarrow> sound M (mark_mines cs ai)"
  by (induction cs arbitrary: ai) (simp_all add: sound_mark_mine)

lemma sound_mark_safes: "sound M ai \<Longrightarrow> set cs \<inter> M = {} \<Longrightarrow> sound M (mark_safes cs ai)"
  by (induction cs arbitrary: ai) (simp_all add: sound_mark_safe)

lemma cells_mark_mine: "cells (store (mark_mine ai c) a) \<subseteq> cells (store ai a)"
  by (auto simp: store_mark_mine sentence_mark_mine_def)

lemma cells_mark_safe: "cells (store (mark_safe ai c) a) \<subseteq> cells (store ai a)"
  by (auto simp: store_mark_safe sentence_mark_safe_def)

lemma cells_mark_mines: "cells (store (mark_mines cs ai) a) \<subseteq> cells (store ai a)"
proof (induction cs arbitrary: ai)
  case Nil show ?case by simp
next
  case (Cons c cs)
  have "cells (store (mark_mines cs (mark_mine ai c)) a) \<subseteq> cells (store (mark_mine ai c) a)"
    by (rule Cons.IH)
  then show ?case using cells_mark_mine [of ai c a] by auto
qed

lemma cells_mark_safes: "cells (store (mark_safes cs ai) a) \<subseteq> cells (store ai a)"
proof (induction cs arbitrary: ai)
  case Nil show ?case by simp
next
  case (Cons c cs)
  have "cells (store (mark_safes cs (mark_safe ai c)) a) \<subseteq> cells (store (mark_safe ai c) a)"
    by (rule Cons.IH)
  then show ?case using cells_mark_safe [of ai c a] by auto
qed

lemma true_known_mines:
  assumes "true_sentence M s" "int (card (cells s)) = count s"
  shows "cells s \<subseteq> M"
proof -
  have "finite (cells s)" "card (cells s \<inter> M) = card (cells s)"
    using assms by (simp_all add: true_sentence_def)
  then have "cells s \<inter> M = cells s" by (intro card_subset_eq) auto
  then show ?thesis by blast
qed

lemma true_known_safes:
  assumes "true_sentence M s" "count s = 0"
  shows "cells s \<inter> M = {}"
  using assms by (auto simp: true_sentence_def)

lemma set_sorted_cells: "card S \<noteq> 0 \<Longrightarrow> set (sorted_list_of_set S) = (S :: cell set)"
  by (metis card.infinite set_sorted_list_of_set)

lemma sound_extract_known:
  assumes "sound M ai"
  shows "sound M (extract_known a ai)"
proof -
  let ?s = "store ai a"
  have ts: "true_sentence M ?s" using assms by (simp add: sound_def)
  define ai1 where "ai1 = (if card (deref (store ai) (known_safes_ref (store ai) a)) \<noteq> 0
                 then mark_safes (sorted_list_of_set (deref (store ai) (known_safes_ref (store ai) a))) ai
                 else ai)"
  have "deref (store ai) (known_safes_ref (store ai) a) \<inter> M = {}"
    using true_known_safes [OF ts] by (simp add: deref_known_safes_ref known_safes_def)
  then have s1: "sound M ai1" and sub: "cells (store ai1 a) \<subseteq> cells ?s"
    using assms by (auto simp: ai1_def set_sorted_cells intro!: sound_mark_safes dest: subsetD [OF cells_mark_safes])
  have "deref (store ai1) (known_mines_ref (store ai) a) \<subseteq> M"
    using true_known_mines [OF ts] sub by (auto simp: deref_def known_mines_ref_def)
  then have "sound M (if card (deref (store ai1) (known_mines_ref (store ai) a)) \<noteq> 0
         then mark_mines (sorted_list_of_set (deref (store ai1) (known_mines_ref (store ai) a))) ai1
         else ai1)"
    using s1 by (auto simp: set_sorted_cells intro!: sound_mark_mines)
  then show ?thesis unfolding extract_known_def Let_def ai1_def .
qed

lemma sound_extract_new:
  assumes "sound M ai"
  shows "sound M (extract_new a ai)"
proof -
  let ?s = "store ai a"
  have ts: "true_sentence M ?s" using assms by (simp add: sound_def)
  define ai1 where "ai1 = (if card (deref (store ai) (known_mines_ref (store ai) a)) \<noteq> 0
                 then mark_mines (sorted_list_of_set (deref (store ai) (known_mines_ref (store ai) a))) ai
                 else ai)"
  have "deref (store ai) (known_mines_ref (store ai) a) \<subseteq> M"
    using true_known_mines [OF ts] by (simp add: deref_known_mines_ref known_mines_def)
  then have s1: "sound M ai1" and sub: "cells (store ai1 a) \<subseteq> cells ?s"
    using assms by (auto simp: ai1_def set_sorted_cells intro!: sound_mark_mines dest: subsetD [OF cells_mark_mines])
  have "deref (store ai1) (known_safes_ref (store ai) a) \<inter> M = {}"
    using true_known_safes [OF ts] sub by (auto simp: deref_def known_safes_ref_def)
  then have "sound M (if card (deref (store ai1) (known_safes_ref (store ai) a)) \<noteq> 0
         then mark_safes (sorted_list_of_set (deref (store ai1) (known_safes_ref (store ai) a))) ai1
         else ai1)"
    using s1 by (auto simp: set_sorted_cells intro!: sound_mark_safes)
  then show ?thesis unfolding extract_new_def Let_def ai1_def .
qed

lemma sound_extract_all: "sound M ai \<Longrightarrow> sound M (extract_all adds ai)"
  by (induction adds arbitrary: ai) (simp_all add: sound_extract_known)

lemma finite_around: "finite (around c)"
  by (cases c) (simp add: around_def)

lemma finite_neighbors: "finite (neighbors h w c)"
  by (rule finite_subset [OF _ finite_around [of c]]) (auto simp: neighbors_def)

lemma around_iff:
  "(k, l) \<in> around (i, j) \<longleftrightarrow> \<bar>k - i\<bar> \<le> 1 \<and> \<bar>l - j\<bar> \<le> 1 \<and> (k, l) \<noteq> (i, j)"
proof
  assume "(k, l) \<in> around (i, j)"
  then show "\<bar>k - i\<bar> \<le> 1 \<and> \<bar>l - j\<bar> \<le> 1 \<and> (k, l) \<noteq> (i, j)"
    by (auto simp: around_def)
next
  assume r: "\<bar>k - i\<bar> \<le> 1 \<and> \<bar>l - j\<bar> \<le> 1 \<and> (k, l) \<noteq> (i, j)"
  have "k = i - 1 \<or> k = i \<or> k = i + 1" using r by arith
  moreover have "l = j - 1 \<or> l = j \<or> l = j + 1" using r by arith
  moreover have "k \<noteq> i \<or> l \<noteq> j" using r by simp
  ultimately show "(k, l) \<in> around (i, j)"
    by (auto simp: around_def)
qed

lemma neighbors_chebyshev:
  "neighbors h w (i, j) =
     {(k, l). 0 \<le> k \<and> k < h \<and> 0 \<le> l \<and> l < w \<and> max \<bar>k - i\<bar> \<bar>l - j\<bar> \<le> 1 \<and> (k, l) \<noteq> (i, j)}"
proof -
  have "(k, l) \<in> neighbors h w (i, j) \<longleftrightarrow>
        0 \<le> k \<and> k < h \<and> 0 \<le> l \<and> l < w \<and> max \<bar>k - i\<bar> \<bar>l - j\<bar> \<le> 1 \<and> (k, l) \<noteq> (i, j)" for k l
    unfolding neighbors_def all_moves_def grid_set
    by (simp only: mem_Collect_eq around_iff case_prod_conv max.bounded_iff) blast
  then show ?thesis by auto
qed

lemma self_not_neighbor: "c \<notin> neighbors h w c"
  by (cases c) (simp add: neighbors_chebyshev)

lemma eliminate_step_eq:
  "eliminate_step ai x (E, k) =
     (E \<union> ({x} \<inter> (mines ai \<union> safes ai \<union> moves_made ai)),
      k - (if x \<in> mines ai then 1 else 0))"
  by (simp add: eliminate_step_def Let_def)

lemma eliminate_eq:
  "eliminate ai xs (E, k) =
     (E \<union> (set xs \<inter> (mines ai \<union> safes ai \<union> moves_made ai)),
      k - int (length (filter (\<lambda>n. n \<in> mines ai) xs)))"
proof (induction xs arbitrary: E k)
  case Nil
  show ?case by simp
next
  case (Cons x xs)
  have "eliminate ai (x # xs) (E, k) =
        eliminate ai xs (E \<union> ({x} \<inter> (mines ai \<union> safes ai \<union> moves_made ai)),
      k - (if x \<in> mines ai then 1 else 0))"
    by (simp only: eliminate.simps eliminate_step_eq)
  also have "\<dots> = (E \<union> (set (x # xs) \<inter> (mines ai \<union> safes ai \<union> moves_made ai)),
      k - int (length (filter (\<lambda>n. n \<in> mines ai) (x # xs))))"
    unfolding Cons.IH by auto
  finally show ?case .
qed

lemma new_sentence_eq:
  "new_sentence ai c n =
     \<lparr>cells = neighbors (height ai) (width ai) c - (mines ai \<union> safes ai \<union> moves_made ai),
      count = n - int (card (neighbors (height ai) (width ai) c \<inter> mines ai))\<rparr>"
proof -
  let ?nb = "neighbors (height ai) (width ai) c"
  let ?xs = "sorted_list_of_set ?nb"
  have set_xs: "set ?xs = ?nb" and dist: "distinct ?xs"
    using finite_neighbors by simp_all
  have "length (filter (\<lambda>n. n \<in> mines ai) ?xs) = card ({n. n \<in> mines ai} \<inter> set ?xs)"
    using dist by (rule distinct_length_filter)
  also have "{n. n \<in> mines ai} \<inter> set ?xs = ?nb \<inter> mines ai"
    using set_xs by auto
  finally have len: "length (filter (\<lambda>n. n \<in> mines ai) ?xs) = card (?nb \<inter> mines ai)" .
  have "?nb - ({} \<union> (set ?xs \<inter> (mines ai \<union> safes ai \<union> moves_made ai)))
        = ?nb - (mines ai \<union> safes ai \<union> moves_made ai)"
    using set_xs by auto
  then show ?thesis
    by (simp add: new_sentence_def Let_def eliminate_eq len)
qed

lemma true_new_sentence:
  assumes "sound M ai" "n = int (card (neighbors (height ai) (width ai) c \<inter> M))"
  shows "true_sentence M (new_sentence ai c n)"
proof -
  let ?nb = "neighbors (height ai) (width ai) c"
  have m: "mines ai \<subseteq> M" and s: "safes ai \<inter> M = {}" and mv: "moves_made ai \<inter> M = {}"
    using assms(1) by (simp_all add: sound_def)
  have fin: "finite (?nb \<inter> M)" using finite_neighbors by simp
  have eq: "(?nb - (mines ai \<union> safes ai \<union> moves_made ai)) \<inter> M = (?nb \<inter> M) - (?nb \<inter> mines ai)"
    using m s mv by auto
  have sub: "?nb \<inter> mines ai \<subseteq> ?nb \<inter> M" using m by auto
  have "card ((?nb \<inter> M) - (?nb \<inter> mines ai)) = card (?nb \<inter> M) - card (?nb \<inter> mines ai)"
    using sub fin by (meson card_Diff_subset finite_subset)
  moreover have "card (?nb \<inter> mines ai) \<le> card (?nb \<inter> M)"
    using sub fin by (rule card_mono [rotated])
  ultimately show ?thesis
    using assms(2) finite_neighbors [of "height ai" "width ai" c]
    by (simp add: true_sentence_def new_sentence_eq eq)
qed

lemma sound_knowledge_update [simp]: "sound M (ai\<lparr>knowledge := k\<rparr>) = sound M ai"
  by (simp add: sound_def)

lemma sound_append_new: "sound M ai \<Longrightarrow> true_sentence M s \<Longrightarrow> sound M (append_new s ai)"
  by (simp add: sound_def append_new_def)

lemma record_observation_dims [simp]:
  "height (record_observation ai c n) = height ai" "width (record_observation ai c n) = width ai"
  by (simp_all add: record_observation_def Let_def append_new_def)

lemma sound_record_observation:
  assumes "sound M ai" "c \<notin> M" "n = int (card (neighbors (height ai) (width ai) c \<inter> M))"
  shows "sound M (record_observation ai c n)"
proof -
  let ?ai1 = "mark_safe (ai\<lparr>moves_made := insert c (moves_made ai)\<rparr>) c"
  have "sound M (ai\<lparr>moves_made := insert c (moves_made ai)\<rparr>)"
    using assms(1,2) by (simp add: sound_def)
  then have s1: "sound M ?ai1" using assms(2) by (rule sound_mark_safe)
  have "true_sentence M (new_sentence ?ai1 c n)"
    using s1 assms(3) by (intro true_new_sentence) simp_all
  then show ?thesis
    using s1 by (simp add: record_observation_def Let_def sound_append_new)
qed

subsection \<open>The iteration order of a set makes no difference\<close>

text \<open>
  The loops over a Python set mark every cell of the set, or visit every neighbour once;
  their result is the same for every enumeration of the set.
\<close>

lemma mark_mines_eq:
  "mark_mines cs ai =
     ai\<lparr>mines := mines ai \<union> set cs,
        store := (\<lambda>a. if a \<in> set (knowledge ai)
                       then \<lparr>cells = cells (store ai a) - set cs,
                             count = count (store ai a) - int (card (cells (store ai a) \<inter> set cs))\<rparr>
                       else store ai a)\<rparr>"
proof (induction cs arbitrary: ai)
  case Nil
  show ?case by (rule MinesweeperAI.equality) (simp_all add: fun_eq_iff)
next
  case (Cons c cs)
  have step: "\<lparr>cells = cells (sentence_mark_mine s c) - set cs,
               count = count (sentence_mark_mine s c) - int (card (cells (sentence_mark_mine s c) \<inter> set cs))\<rparr>
            = \<lparr>cells = cells s - set (c # cs), count = count s - int (card (cells s \<inter> set (c # cs)))\<rparr>"
    for s :: Sentence
  proof (cases "c \<in> cells s")
    case True
    have "cells s \<inter> insert c (set cs) = insert c ((cells s - {c}) \<inter> set cs)"
      using True by auto
    moreover have "finite ((cells s - {c}) \<inter> set cs)" "c \<notin> (cells s - {c}) \<inter> set cs"
      by simp_all
    ultimately have "card (cells s \<inter> insert c (set cs)) = Suc (card ((cells s - {c}) \<inter> set cs))"
      by simp
    then show ?thesis using True by (auto simp: sentence_mark_mine_def)
  next
    case False
    then have "cells s \<inter> insert c (set cs) = cells s \<inter> set cs" by auto
    then show ?thesis using False by (simp add: sentence_mark_mine_def)
  qed
  show ?case
    unfolding mark_mines.simps Cons.IH
    by (rule MinesweeperAI.equality) (auto simp: store_mark_mine step)
qed

lemma mark_safes_eq:
  "mark_safes cs ai =
     ai\<lparr>safes := safes ai \<union> set cs,
        store := (\<lambda>a. if a \<in> set (knowledge ai)
                       then (store ai a)\<lparr>cells := cells (store ai a) - set cs\<rparr>
                       else store ai a)\<rparr>"
proof (induction cs arbitrary: ai)
  case Nil
  show ?case by (rule MinesweeperAI.equality) (simp_all add: fun_eq_iff)
next
  case (Cons c cs)
  have step: "(sentence_mark_safe s c)\<lparr>cells := cells (sentence_mark_safe s c) - set cs\<rparr>
            = s\<lparr>cells := cells s - set (c # cs)\<rparr>" for s :: Sentence
  proof -
    have "cells s - {c} - set cs = cells s - insert c (set cs)" by auto
    moreover have "c \<notin> cells s \<Longrightarrow> cells s - set cs = cells s - insert c (set cs)" by auto
    ultimately show ?thesis by (simp add: sentence_mark_safe_def)
  qed
  show ?case
    unfolding mark_safes.simps Cons.IH
    by (rule MinesweeperAI.equality) (auto simp: store_mark_safe step)
qed

lemma mark_mines_any_order: "set cs = set cs' \<Longrightarrow> mark_mines cs ai = mark_mines cs' ai"
  by (simp add: mark_mines_eq cong: if_cong)

lemma mark_safes_any_order: "set cs = set cs' \<Longrightarrow> mark_safes cs ai = mark_safes cs' ai"
  by (simp add: mark_safes_eq cong: if_cong)

lemma eliminate_any_order:
  assumes "distinct ns" "distinct ns'" "set ns = set ns'"
  shows "eliminate ai ns acc = eliminate ai ns' acc"
proof -
  have "length (filter (\<lambda>n. n \<in> mines ai) ns) = length (filter (\<lambda>n. n \<in> mines ai) ns')"
    using assms by (simp add: distinct_length_filter)
  then show ?thesis
    using assms(3) by (cases acc) (simp add: eliminate_eq)
qed

subsection \<open>Every phase of add_knowledge grows the sets and preserves soundness\<close>

lemma extends_refl [simp]: "extends ai ai"
  by (simp add: extends_def)

lemma extends_trans: "extends a b \<Longrightarrow> extends b c \<Longrightarrow> extends a c"
  by (auto simp: extends_def)

lemma extends_knowledge_update [simp]: "extends ai (st\<lparr>knowledge := k\<rparr>) = extends ai st"
  by (simp add: extends_def)

lemma extends_mark_mines [simp]: "extends ai (mark_mines cs ai)"
  by (simp add: extends_def)

lemma extends_mark_safes [simp]: "extends ai (mark_safes cs ai)"
  by (simp add: extends_def)

lemma extends_extract_known: "extends ai (extract_known a ai)"
  unfolding extract_known_def Let_def
  by (auto intro: extends_trans [OF extends_mark_safes extends_mark_mines])

lemma extends_extract_new: "extends ai (extract_new a ai)"
  unfolding extract_new_def Let_def
  by (auto intro: extends_trans [OF extends_mark_mines extends_mark_safes])

lemma extends_extract_all: "extends ai (extract_all adds ai)"
proof (induction adds arbitrary: ai)
  case Nil
  show ?case by simp
next
  case (Cons a adds)
  have "extends (extract_known a ai) (extract_all adds (extract_known a ai))" by (rule Cons.IH)
  with extends_extract_known [of ai a] show ?case
    by (simp add: extends_trans)
qed

lemma extends_record_observation: "extends ai (record_observation ai c n)"
  by (auto simp: extends_def record_observation_def Let_def append_new_def)

lemma extends_ingest: "extends ai (ingest ai c n)"
proof -
  have "extends ai (extract_all (knowledge (extract_new (fresh ai) (record_observation ai c n)))
          (extract_new (fresh ai) (record_observation ai c n)))"
    by (rule extends_trans [OF extends_trans [OF extends_record_observation extends_extract_new]
          extends_extract_all])
  then show ?thesis
    unfolding ingest_def Let_def extends_knowledge_update .
qed

lemma derive_step_fields [simp]:
  "mines (fst (derive_step p acc)) = mines (fst acc)"
  "safes (fst (derive_step p acc)) = safes (fst acc)"
  "moves_made (fst (derive_step p acc)) = moves_made (fst acc)"
  "height (fst (derive_step p acc)) = height (fst acc)"
  "width (fst (derive_step p acc)) = width (fst acc)"
  "knowledge (fst (derive_step p acc)) = knowledge (fst acc)"
  by (simp_all add: derive_step_def Let_def)

lemma derive_loop_fields [simp]:
  "mines (fst (derive_loop ps acc)) = mines (fst acc)"
  "safes (fst (derive_loop ps acc)) = safes (fst acc)"
  "moves_made (fst (derive_loop ps acc)) = moves_made (fst acc)"
  "height (fst (derive_loop ps acc)) = height (fst acc)"
  "width (fst (derive_loop ps acc)) = width (fst acc)"
  "knowledge (fst (derive_loop ps acc)) = knowledge (fst acc)"
  by (induction ps arbitrary: acc; simp)+

lemma true_difference:
  assumes "true_sentence M s1" "true_sentence M s2" "cells s2 \<subseteq> cells s1"
  shows "true_sentence M \<lparr>cells = cells s1 - cells s2, count = count s1 - count s2\<rparr>"
proof -
  have fin: "finite (cells s1 \<inter> M)" using assms(1) by (simp add: true_sentence_def)
  have sub: "cells s2 \<inter> M \<subseteq> cells s1 \<inter> M" using assms(3) by auto
  have eq: "(cells s1 - cells s2) \<inter> M = (cells s1 \<inter> M) - (cells s2 \<inter> M)" by auto
  have "card ((cells s1 \<inter> M) - (cells s2 \<inter> M)) = card (cells s1 \<inter> M) - card (cells s2 \<inter> M)"
    using sub fin by (meson card_Diff_subset finite_subset)
  moreover have "card (cells s2 \<inter> M) \<le> card (cells s1 \<inter> M)"
    using sub fin by (rule card_mono [rotated])
  ultimately show ?thesis
    using assms(1,2) by (simp add: true_sentence_def eq)
qed

lemma sound_derive_step: "sound M (fst acc) \<Longrightarrow> sound M (fst (derive_step p acc))"
  by (auto simp: derive_step_def Let_def sound_def true_difference)

lemma sound_derive_loop: "sound M (fst acc) \<Longrightarrow> sound M (fst (derive_loop ps acc))"
  by (induction ps arbitrary: acc) (simp_all add: sound_derive_step)

lemma sound_derive: "sound M ai \<Longrightarrow> sound M (fst (derive ai))"
  by (simp add: derive_def sound_derive_loop)

lemma add_new_sentences_fields [simp]:
  "mines (add_new_sentences xs ai) = mines ai"
  "safes (add_new_sentences xs ai) = safes ai"
  "moves_made (add_new_sentences xs ai) = moves_made ai"
  "height (add_new_sentences xs ai) = height ai"
  "width (add_new_sentences xs ai) = width ai"
  "store (add_new_sentences xs ai) = store ai"
  "fresh (add_new_sentences xs ai) = fresh ai"
  by (induction xs arbitrary: ai; simp)+

lemma sound_add_new_sentences: "sound M (add_new_sentences xs ai) = sound M ai"
  by (simp add: sound_def)

lemma sound_ingest:
  assumes "sound M ai" "c \<notin> M" "n = int (card (neighbors (height ai) (width ai) c \<inter> M))"
  shows "sound M (ingest ai c n)"
  unfolding ingest_def Let_def sound_knowledge_update
  by (intro sound_extract_all sound_extract_new sound_record_observation assms)

lemma sound_resolve: "sound M ai \<Longrightarrow> sound M (resolve ai)"
  unfolding resolve_def Let_def case_prod_beta
  by (intro sound_extract_all) (simp add: sound_add_new_sentences sound_derive)

lemma extends_resolve: "extends ai (resolve ai)"
proof -
  have "extends ai (add_new_sentences (snd (derive ai)) (fst (derive ai)))"
    by (simp add: extends_def derive_def)
  then have "extends ai ((add_new_sentences (snd (derive ai)) (fst (derive ai)))
     \<lparr>knowledge := remove_empty (store (add_new_sentences (snd (derive ai)) (fst (derive ai)))) 0
         (knowledge (add_new_sentences (snd (derive ai)) (fst (derive ai))))\<rparr>)"
    by (simp only: extends_knowledge_update)
  then show ?thesis
    unfolding resolve_def Let_def case_prod_beta
    by (rule extends_trans [OF _ extends_extract_all])
qed

lemma extends_add_knowledge: "extends ai (add_knowledge ai c n)"
  unfolding add_knowledge_def by (rule extends_trans [OF extends_ingest extends_resolve])

lemma sound_add_knowledge:
  assumes "sound M ai" "c \<notin> M" "n = int (card (neighbors (height ai) (width ai) c \<inter> M))"
  shows "sound M (add_knowledge ai c n)"
  unfolding add_knowledge_def by (rule sound_resolve) (rule sound_ingest [OF assms])

subsection \<open>Sequences of calls\<close>

lemma run_append: "run (cs1 @ cs2) ai = run cs2 (run cs1 ai)"
  by (induction cs1 arbitrary: ai) simp_all

lemma extends_exec_call: "extends ai (exec_call ai c)"
  by (cases c) (simp_all add: extends_add_knowledge)

lemma extends_run: "extends ai (run calls ai)"
proof (induction calls arbitrary: ai)
  case Nil
  show ?case by simp
next
  case (Cons c calls)
  have "extends (exec_call ai c) (run calls (exec_call ai c))" by (rule Cons.IH)
  with extends_exec_call [of ai c] show ?case
    by (simp add: extends_trans)
qed

text \<open>
  Claim C9. Across any sequence of \<open>add_knowledge\<close>, \<open>make_safe_move\<close> and
  \<open>make_random_move\<close> calls, from any state, \<open>mines\<close> and \<open>safes\<close> only grow: what
  is in either set after a prefix \<open>cs1\<close> of the calls is still there after any further
  calls \<open>cs2\<close>.
\<close>

theorem safes_mines_only_grow:
  "mines (run cs1 ai) \<subseteq> mines (run (cs1 @ cs2) ai) \<and>
   safes (run cs1 ai) \<subseteq> safes (run (cs1 @ cs2) ai)"
  using extends_run [of "run cs1 ai" cs2] by (simp add: run_append extends_def)

lemma sound_init: "sound M (init_ai h w)"
  by (simp add: sound_def init_ai_def true_sentence_def)

lemma sound_run:
  assumes "\<forall>c n. Add_knowledge c n \<in> set calls \<longrightarrow> truthful M (height ai) (width ai) c n" "sound M ai"
  shows "sound M (run calls ai)"
  using assms
proof (induction calls arbitrary: ai)
  case Nil
  then show ?case by simp
next
  case (Cons c calls)
  have dims: "height (exec_call ai c) = height ai" "width (exec_call ai c) = width ai"
    using extends_exec_call [of ai c] by (simp_all add: extends_def)
  have "sound M (exec_call ai c)"
  proof (cases c)
    case (Add_knowledge x n)
    then have "truthful M (height ai) (width ai) x n" using Cons.prems(1)
      by (metis list.set_intros(1))
    then show ?thesis using Cons.prems(2) Add_knowledge
      by (simp add: truthful_def sound_add_knowledge)
  qed (simp_all add: Cons.prems)
  moreover have "\<forall>x n. Add_knowledge x n \<in> set calls \<longrightarrow>
      truthful M (height (exec_call ai c)) (width (exec_call ai c)) x n"
    using Cons.prems(1) by (simp add: dims)
  ultimately have "sound M (run calls (exec_call ai c))" by (intro Cons.IH)
  then show ?case by simp
qed

text \<open>
  Claim C5, amended. On an AI started empty, after any sequence of calls whose
  \<open>add_knowledge\<close> observations are all truthful for one set \<open>M\<close> of mines (the observed
  cell is no mine, and the count is the number of mines among its neighbours on the
  board), \<open>safes\<close> and \<open>mines\<close> are disjoint.
\<close>

theorem safes_mines_disjoint:
  assumes "\<forall>c n. Add_knowledge c n \<in> set calls \<longrightarrow> truthful M h w c n"
  shows "safes (run calls (init_ai h w)) \<inter> mines (run calls (init_ai h w)) = {}"
proof -
  have "sound M (run calls (init_ai h w))"
    using assms by (intro sound_run sound_init) (simp add: init_ai_def)
  then show ?thesis by (auto simp: sound_def)
qed

lemma neighbors_spec:
  "neighbors (height ai) (width ai) c = {d. in_bounds ai d \<and> chebyshev d c \<le> 1 \<and> d \<noteq> c}"
  by (cases c) (auto simp: neighbors_chebyshev in_bounds_def chebyshev_def)

text \<open>
  Claim C8. The sentence that \<open>add_knowledge(c, n)\<close> appends (lines 197 to 227) has
  as cells the cells of the board within Chebyshev distance 1 of \<open>c\<close>, other than \<open>c\<close>,
  that are not in \<open>moves_made\<close>, \<open>safes\<close> or \<open>mines\<close>, and as count \<open>n\<close> minus the
  number of those neighbours that are in \<open>mines\<close>. This holds for every cell \<open>c\<close>, in
  bounds or not.
\<close>

theorem new_constraint:
  "knowledge (record_observation ai c n) = knowledge ai @ [fresh ai] \<and>
   store (record_observation ai c n) (fresh ai) =
     \<lparr>cells = {d. in_bounds ai d \<and> chebyshev d c \<le> 1 \<and> d \<noteq> c \<and>
                 d \<notin> moves_made ai \<and> d \<notin> safes ai \<and> d \<notin> mines ai},
      count = n - int (card {d. in_bounds ai d \<and> chebyshev d c \<le> 1 \<and> d \<noteq> c \<and> d \<in> mines ai})\<rparr>"
proof -
  let ?ai1 = "mark_safe (ai\<lparr>moves_made := insert c (moves_made ai)\<rparr>) c"
  let ?nb = "neighbors (height ai) (width ai) c"
  have c: "c \<notin> ?nb" by (rule self_not_neighbor)
  have "?nb - (mines ai \<union> insert c (safes ai) \<union> insert c (moves_made ai)) =
        {d. in_bounds ai d \<and> chebyshev d c \<le> 1 \<and> d \<noteq> c \<and>
                 d \<notin> moves_made ai \<and> d \<notin> safes ai \<and> d \<notin> mines ai}"
    unfolding neighbors_spec by auto
  moreover have "?nb \<inter> mines ai = {d. in_bounds ai d \<and> chebyshev d c \<le> 1 \<and> d \<noteq> c \<and> d \<in> mines ai}"
    unfolding neighbors_spec by auto
  ultimately show ?thesis
    by (simp add: record_observation_def Let_def append_new_def new_sentence_eq)
qed

lemma truthful_2x3:
  "truthful {(0, 1), (1, 0)} 2 3 (1, 2) 1" "truthful {(0, 1), (1, 0)} 2 3 (0, 2) 1"
  "truthful {(0, 1), (1, 0)} 2 3 (0, 0) 2"
  by code_simp+

lemma mines_2x3:
  "(1, 0) \<in> mines (run [Add_knowledge (1, 2) 1, Add_knowledge (0, 2) 1, Add_knowledge (0, 0) 2]
                     (init_ai 2 3))"
  by code_simp

theorem safes_mines_disjoint_witness:
  "truthful {(0, 1), (1, 0)} 2 3 (1, 2) 1 \<and> truthful {(0, 1), (1, 0)} 2 3 (0, 2) 1 \<and>
   truthful {(0, 1), (1, 0)} 2 3 (0, 0) 2 \<and>
   (1, 0) \<in> mines (run [Add_knowledge (1, 2) 1, Add_knowledge (0, 2) 1, Add_knowledge (0, 0) 2]
                     (init_ai 2 3)) \<and>
   safes (run [Add_knowledge (1, 2) 1, Add_knowledge (0, 2) 1, Add_knowledge (0, 0) 2] (init_ai 2 3)) \<inter>
   mines (run [Add_knowledge (1, 2) 1, Add_knowledge (0, 2) 1, Add_knowledge (0, 0) 2] (init_ai 2 3)) = {}"
proof -
  have "\<forall>c n. Add_knowledge c n \<in>
          set [Add_knowledge (1, 2) 1, Add_knowledge (0, 2) 1, Add_knowledge (0, 0) 2] \<longrightarrow>
      truthful {(0, 1), (1, 0)} 2 3 c n"
    using truthful_2x3 by auto
  then show ?thesis
    using safes_mines_disjoint [of "[Add_knowledge (1, 2) 1, Add_knowledge (0, 2) 1,
        Add_knowledge (0, 0) 2]" "{(0, 1), (1, 0)}" 2 3] truthful_2x3 mines_2x3 by blast
qed

text \<open>
  Claim C5 as stated, for any sequence of calls, fails: on the board of height 1 and
  width 2, \<open>add_knowledge((0, 0), 1)\<close> marks \<open>(0, 1)\<close> as a mine, and
  \<open>add_knowledge((0, 1), 0)\<close> then marks the same cell safe.
\<close>

lemma overlap_safe: "(0, 1) \<in> safes (add_knowledge (add_knowledge (init_ai 1 2) (0, 0) 1) (0, 1) 0)"
  by code_simp

lemma overlap_mine: "(0, 1) \<in> mines (add_knowledge (add_knowledge (init_ai 1 2) (0, 0) 1) (0, 1) 0)"
  by code_simp

theorem safes_mines_overlap:
  "safes (run [Add_knowledge (0, 0) 1, Add_knowledge (0, 1) 0] (init_ai 1 2)) \<inter>
   mines (run [Add_knowledge (0, 0) 1, Add_knowledge (0, 1) 0] (init_ai 1 2)) \<noteq> {}"
  using overlap_safe overlap_mine by auto

subsection \<open>Contradictory observations, subset resolution, empty sentences\<close>



























lemma extract_known_lists [simp]:
  "knowledge (extract_known a ai) = knowledge ai" "fresh (extract_known a ai) = fresh ai"
  by (simp_all add: extract_known_def Let_def)

lemma extract_new_lists [simp]:
  "knowledge (extract_new a ai) = knowledge ai" "fresh (extract_new a ai) = fresh ai"
  by (simp_all add: extract_new_def Let_def)

lemma extract_all_lists [simp]:
  "knowledge (extract_all l ai) = knowledge ai" "fresh (extract_all l ai) = fresh ai"
  by (induction l arbitrary: ai; simp)+















text \<open>
  The second half of the amended claim needs the observations to be truthful. On the
  board of height 3 and width 3, after \<open>add_knowledge((0, 0), 1)\<close>,
  \<open>add_knowledge((0, 0), 2)\<close> and \<open>add_knowledge((2, 1), 2)\<close>, the call
  \<open>add_knowledge((2, 0), 1)\<close> reaches its resolution step with
  \<open>{(1, 0), (1, 1), (0, 1)} = 2\<close> and \<open>{(1, 0), (1, 1)} = 1\<close> in the pool, and returns
  with \<open>(0, 1)\<close> not in \<open>mines\<close>: the sentence \<open>{(0, 1)} = 0\<close>, derived from the first
  observation, is extracted first and marks the cell safe.
\<close>

lemma pool_contradictory:
  "pool (ingest (run [Add_knowledge (0, 0) 1, Add_knowledge (0, 0) 2, Add_knowledge (2, 1) 2]
                  (init_ai 3 3)) (2, 0) 1) =
     [\<lparr>cells = {(0, 1), (1, 0), (1, 1)}, count = 1\<rparr>, \<lparr>cells = {(1, 0), (1, 1), (0, 1)}, count = 2\<rparr>,
      \<lparr>cells = {(1, 0), (1, 1), (1, 2), (2, 2)}, count = 2\<rparr>, \<lparr>cells = {(1, 0), (1, 1)}, count = 1\<rparr>]"
  by code_simp

lemma mines_contradictory:
  "(0, 1) \<notin> mines (add_knowledge (run [Add_knowledge (0, 0) 1, Add_knowledge (0, 0) 2,
                                      Add_knowledge (2, 1) 2] (init_ai 3 3)) (2, 0) 1)"
  by code_simp

theorem resolution_needs_truthful:
  "\<lparr>cells = {(1, 0), (1, 1), (0, 1)}, count = 2\<rparr> \<in>
     set (pool (ingest (run [Add_knowledge (0, 0) 1, Add_knowledge (0, 0) 2, Add_knowledge (2, 1) 2]
                  (init_ai 3 3)) (2, 0) 1)) \<and>
   \<lparr>cells = {(1, 0), (1, 1)}, count = 1\<rparr> \<in>
     set (pool (ingest (run [Add_knowledge (0, 0) 1, Add_knowledge (0, 0) 2, Add_knowledge (2, 1) 2]
                  (init_ai 3 3)) (2, 0) 1)) \<and>
   (0, 1) \<notin> mines (add_knowledge (run [Add_knowledge (0, 0) 1, Add_knowledge (0, 0) 2,
                                      Add_knowledge (2, 1) 2] (init_ai 3 3)) (2, 0) 1)"
  using mines_contradictory unfolding pool_contradictory by simp





















text \<open>
  Claim C2, at the board of height 3 and width 3 after \<open>add_knowledge((0, 0), 1)\<close> and
  \<open>add_knowledge((0, 1), 1)\<close>: the second call returns with a sentence of no cells in
  the pool. It is \<open>{(0, 2), (1, 2)} = 0\<close>, derived by the resolution step and emptied by
  the extraction of lines 295 to 309, after the last removal of empty sentences.
\<close>

theorem empty_sentence_left:
  "pool (run [Add_knowledge (0, 0) 1, Add_knowledge (0, 1) 1] (init_ai 3 3)) =
     [\<lparr>cells = {(1, 0), (1, 1)}, count = 1\<rparr>, \<lparr>cells = {(1, 0), (1, 1)}, count = 1\<rparr>,
      \<lparr>cells = {}, count = 0\<rparr>]"
  by code_simp


subsection \<open>make_safe_move\<close>

text \<open>Whatever the iteration order of \<open>self.safes\<close>, the cell returned is a known safe
  cell not yet played, and \<open>None\<close> is returned exactly when there is no such cell.\<close>

lemma make_safe_move_Some:
  "set order = safes ai \<Longrightarrow> make_safe_move ai order = Some c \<Longrightarrow>
   c \<in> safes ai \<and> c \<notin> moves_made ai"
  by (auto simp: make_safe_move_def find_Some_iff split: if_splits)

lemma make_safe_move_None:
  "set order = safes ai \<Longrightarrow> make_safe_move ai order = None \<longleftrightarrow> safes ai \<subseteq> moves_made ai"
proof -
  assume o: "set order = safes ai"
  then have "finite (safes ai)" by (metis List.finite_set)
  then show ?thesis
    using o by (auto simp: make_safe_move_def find_None_iff)
qed

subsection \<open>make_random_move\<close>

lemma possible_move_truncated:
  "possible_move ai =
     {(i, j). 0 \<le> i \<and> i < height ai - 1 \<and> 0 \<le> j \<and> j < width ai - 1} - moves_made ai - mines ai"
  unfolding possible_move_def grid_set by auto

lemma candidates_2x2: "sorted_list_of_set (possible_move (init_ai 2 2)) = [(0, 0)]"
  by code_simp

text \<open>
  Claim C1, at the board of height 2 and width 2 with no move made and no mine known:
  the candidate set of \<open>make_random_move\<close> is \<open>{(0, 0)}\<close> alone, so whatever the random
  source yields the call returns \<open>(0, 0)\<close> and never \<open>(1, 1)\<close>.
\<close>

theorem random_move_2x2:
  "possible_move (init_ai 2 2) = {(0, 0)} \<and>
   make_random_move (init_ai 2 2) r = Some (0, 0) \<and>
   make_random_move (init_ai 2 2) r \<noteq> Some (1, 1)"
proof -
  have "possible_move (init_ai 2 2) = {(0, 0)}" by code_simp
  then show ?thesis by (simp add: make_random_move_def candidates_2x2)
qed

end
